theory Spec2Isabelle
  imports Main "HOL-Library.AList"
begin

section \<open>Strings\<close>

text \<open>
  The program is Python 2. A \<^verbatim>\<open>unicode\<close> object is modelled by the list of its
  code points, a \<^verbatim>\<open>str\<close> (a byte string) by an Isabelle \<open>string\<close>. Request arguments
  (title, markdown source) are \<^verbatim>\<open>unicode\<close>; the slug is a \<^verbatim>\<open>str\<close> from
  \<^verbatim>\<open>.encode("ascii", "ignore")\<close> on.
\<close>

type_synonym unicode = "nat list"

text \<open>
  \<^verbatim>\<open>u.encode("ascii", "ignore")\<close>: the code points below 128 are kept, each as one
  byte; every other code point is dropped.
\<close>

definition encode_ascii_ignore :: "unicode \<Rightarrow> string" where
  "encode_ascii_ignore u = map char_of (filter (\<lambda>n. n < 128) u)"

text \<open>
  \<^verbatim>\<open>\w\<close> of the \<^verbatim>\<open>re\<close> module on a \<^verbatim>\<open>str\<close> pattern with no flag: the ASCII
  letters, the digits and the underscore.
\<close>

definition is_word :: "char \<Rightarrow> bool" where
  "is_word c = (let n = (of_char c :: nat) in
     (48 \<le> n \<and> n \<le> 57) \<or> (65 \<le> n \<and> n \<le> 90) \<or> n = 95 \<or> (97 \<le> n \<and> n \<le> 122))"

text \<open>
  \<^verbatim>\<open>re.sub(r"[^\w]+", " ", s)\<close>: every maximal run of non-word characters becomes one
  space.
\<close>

function re_sub_nonword :: "string \<Rightarrow> string" where
  "re_sub_nonword [] = []"
| "re_sub_nonword (c # cs) =
     (if is_word c then c # re_sub_nonword cs
      else CHR '' '' # re_sub_nonword (dropWhile (\<lambda>x. \<not> is_word x) cs))"
  by pat_completeness auto
termination
  by (relation "measure length") (auto simp: length_dropWhile_le le_imp_less_Suc)

text \<open>\<^verbatim>\<open>str.lower()\<close>: the bytes \<^verbatim>\<open>A\<close> to \<^verbatim>\<open>Z\<close> move to \<^verbatim>\<open>a\<close> to \<^verbatim>\<open>z\<close>.\<close>

definition lower_char :: "char \<Rightarrow> char" where
  "lower_char c = (let n = (of_char c :: nat) in
     if 65 \<le> n \<and> n \<le> 90 then char_of (n + 32) else c)"

definition lower :: "string \<Rightarrow> string" where
  "lower s = map lower_char s"

text \<open>
  The whitespace of \<^verbatim>\<open>str.strip()\<close> and \<^verbatim>\<open>str.split()\<close>: tab, line feed, vertical
  tab, form feed, carriage return and space.
\<close>

definition is_space :: "char \<Rightarrow> bool" where
  "is_space c = (let n = (of_char c :: nat) in (9 \<le> n \<and> n \<le> 13) \<or> n = 32)"

definition strip :: "string \<Rightarrow> string" where
  "strip s = rev (dropWhile is_space (rev (dropWhile is_space s)))"

text \<open>\<^verbatim>\<open>s.split()\<close>: the maximal runs of non-whitespace characters, in order.\<close>

function split :: "string \<Rightarrow> string list" where
  "split [] = []"
| "split (c # cs) =
     (if is_space c then split cs
      else (c # takeWhile (\<lambda>x. \<not> is_space x) cs) # split (dropWhile (\<lambda>x. \<not> is_space x) cs))"
  by pat_completeness auto
termination
  by (relation "measure length") (auto simp: length_dropWhile_le le_imp_less_Suc)

text \<open>\<^verbatim>\<open>sep.join(words)\<close>.\<close>

fun join :: "string \<Rightarrow> string list \<Rightarrow> string" where
  "join sep [] = []"
| "join sep [w] = w"
| "join sep (w # v # ws) = w @ sep @ join sep (v # ws)"

section \<open>The slug of a title\<close>

text \<open>
  Lines 130 to 133 of \<^verbatim>\<open>ComposeHandler.post\<close>:
  \<^verbatim>\<open>
  slug = unicodedata.normalize("NFKD", title).encode("ascii", "ignore")
  slug = re.sub(r"[^\w]+", " ", slug)
  slug = "-".join(slug.lower().strip().split())
  \<close>
  \<^verbatim>\<open>unicodedata.normalize("NFKD", _)\<close> is a table of the Unicode database; it is the
  parameter \<open>nfkd\<close>, and every result below holds for every such function.
\<close>

definition normalized :: "(unicode \<Rightarrow> unicode) \<Rightarrow> unicode \<Rightarrow> string" where
  "normalized nfkd title =
     join ''-'' (split (strip (lower (re_sub_nonword (encode_ascii_ignore (nfkd title))))))"

text \<open>Line 134: \<^verbatim>\<open>if not slug: slug = "entry"\<close>.\<close>

definition slug_base :: "(unicode \<Rightarrow> unicode) \<Rightarrow> unicode \<Rightarrow> string" where
  "slug_base nfkd title =
     (let slug = normalized nfkd title in if slug = [] then ''entry'' else slug)"

section \<open>The datastore\<close>

text \<open>
  The model class of the program (lines 31 to 39). \<^verbatim>\<open>title\<close>, \<^verbatim>\<open>slug\<close>,
  \<^verbatim>\<open>body\<close> and \<^verbatim>\<open>markdown\<close> are declared \<^verbatim>\<open>required=True\<close>; \<^verbatim>\<open>published\<close> is
  \<^verbatim>\<open>auto_now_add\<close> (set when the instance is constructed), \<^verbatim>\<open>updated\<close> is
  \<^verbatim>\<open>auto_now\<close> (set at every \<^verbatim>\<open>put\<close>). The field \<^verbatim>\<open>markdown\<close> holds the rendered
  HTML, the field \<^verbatim>\<open>body\<close> the markdown source. Of the checks that the datastore
  library makes on a property value, the one that the class declares is modelled: a
  \<^verbatim>\<open>required\<close> property refuses an empty value. The limits of the library itself (the
  length of a \<^verbatim>\<open>StringProperty\<close>, its single line) are not; they only make more calls
  fail before the write.
\<close>

type_synonym dbkey = string
type_synonym user = string
type_synonym datetime = nat

record Entry =
  author :: user
  title :: unicode
  slug :: string
  body :: unicode
  markdown :: unicode
  published :: datetime
  updated :: datetime

text \<open>
  A stored entity is its key, as the string \<^verbatim>\<open>str(entity.key())\<close>, with its
  properties. The datastore calls of the program are recorded in order.
\<close>

type_synonym entity = "dbkey \<times> Entry"

datatype storage_op = Query_slug string | Get_key dbkey | Put_key dbkey

section \<open>The collision loop\<close>

text \<open>
  Line 137, \<^verbatim>\<open>not existing or str(existing.key()) == key\<close>, where \<^verbatim>\<open>key\<close> is the
  request argument, \<^verbatim>\<open>None\<close> when the request has none.
\<close>

definition accepted :: "dbkey option \<Rightarrow> entity option \<Rightarrow> bool" where
  "accepted key existing =
     (case existing of None \<Rightarrow> True | Some (k, e) \<Rightarrow> Some k = key)"

text \<open>
  Lines 135 to 139:
  \<^verbatim>\<open>
  while True:
      existing = db.Query(Entry).filter("slug =", slug).get()
      if not existing or str(existing.key()) == key:
          break
      slug += "-2"
  \<close>
  The query is the parameter \<open>query\<close>. The loop has no bound, so it is a partial
  function: \<open>None\<close> is the loop that never leaves. The variable \<^verbatim>\<open>slug\<close> is
  \<open>cand\<close>; the result is its value at the \<^verbatim>\<open>break\<close> with the log of the queries made.
\<close>

partial_function (option) collision_loop ::
  "(string \<Rightarrow> entity option) \<Rightarrow> dbkey option \<Rightarrow> string \<Rightarrow> storage_op list
     \<Rightarrow> (string \<times> storage_op list) option"
where
  "collision_loop query key cand log =
     (let existing = query cand; log' = log @ [Query_slug cand] in
      if accepted key existing then Some (cand, log')
      else collision_loop query key (cand @ ''-2'') log')"

declare collision_loop.simps [code]

text \<open>Lines 130 to 139 together: the slug of a new entry.\<close>

definition generate ::
  "(unicode \<Rightarrow> unicode) \<Rightarrow> (string \<Rightarrow> entity option) \<Rightarrow> dbkey option \<Rightarrow> unicode
     \<Rightarrow> storage_op list \<Rightarrow> (string \<times> storage_op list) option"
where
  "generate nfkd query key t log = collision_loop query key (slug_base nfkd t) log"

text \<open>The candidates of the loop: the base slug with \<open>n\<close> copies of \<^verbatim>\<open>-2\<close> appended.\<close>

definition suffixed :: "string \<Rightarrow> nat \<Rightarrow> string" where
  "suffixed base n = base @ concat (replicate n ''-2'')"

definition probes :: "string \<Rightarrow> nat \<Rightarrow> storage_op list" where
  "probes base n = map (\<lambda>m. Query_slug (suffixed base m)) [0..<n]"

text \<open>
  For comparison, the loop that leaves exactly when the query returns no entity (it
  never looks at the key of the entity found).
\<close>

partial_function (option) simple_loop ::
  "(string \<Rightarrow> entity option) \<Rightarrow> string \<Rightarrow> storage_op list
     \<Rightarrow> (string \<times> storage_op list) option"
where
  "simple_loop query cand log =
     (let existing = query cand; log' = log @ [Query_slug cand] in
      if existing = None then Some (cand, log')
      else simple_loop query (cand @ ''-2'') log')"

declare simple_loop.simps [code]

section \<open>The request handler\<close>

text \<open>
  The exceptions that \<^verbatim>\<open>ComposeHandler.post\<close> can leave with:
  \<^item> \<open>MissingArgument name\<close>: \<^verbatim>\<open>self.get_argument(name)\<close> with no default on a
    request without that argument (an \<^verbatim>\<open>HTTPError\<close> of the framework);
  \<^item> \<open>AttributeError\<close>: an attribute of \<^verbatim>\<open>None\<close> is set;
  \<^item> \<open>BadValueError\<close>: a property declared \<^verbatim>\<open>required=True\<close> is given an empty
    value, at the assignment or in the constructor of \<^verbatim>\<open>Entry\<close>.
\<close>

datatype error = MissingArgument string | AttributeError | BadValueError

text \<open>The arguments of the request; \<open>None\<close> is an argument the request does not have.\<close>

record request =
  key_arg :: "dbkey option"
  title_arg :: "unicode option"
  markdown_arg :: "unicode option"

text \<open>
  What the handler takes from its libraries and its surroundings: the NFKD table, the
  function \<^verbatim>\<open>markdown.markdown\<close>, \<^verbatim>\<open>self.current_user\<close>, the clock that the
  \<^verbatim>\<open>auto_now\<close> properties read, and the key that the datastore gives to a new entity.
\<close>

record env =
  normalize_nfkd :: "unicode \<Rightarrow> unicode"
  markdown_markdown :: "unicode \<Rightarrow> unicode"
  current_user :: user
  now :: datetime
  new_key :: "entity list \<Rightarrow> dbkey"

record datastore =
  entities :: "entity list"
  oplog :: "storage_op list"

text \<open>\<^verbatim>\<open>if key:\<close> on a value that is \<^verbatim>\<open>None\<close> or a string.\<close>

definition truthy :: "string option \<Rightarrow> bool" where
  "truthy key = (case key of None \<Rightarrow> False | Some k \<Rightarrow> k \<noteq> [])"

text \<open>\<^verbatim>\<open>db.Query(Entry).filter("slug =", s).get()\<close>: the first entity with that slug.\<close>

definition query_slug :: "entity list \<Rightarrow> string \<Rightarrow> entity option" where
  "query_slug es s = find (\<lambda>(k, e). slug e = s) es"

text \<open>
  \<^verbatim>\<open>entry.put()\<close>: \<^verbatim>\<open>updated\<close> is set to the time of the call, and the entity is
  written under its key, over the entity that had this key if there was one.
\<close>

definition put :: "env \<Rightarrow> dbkey \<Rightarrow> Entry \<Rightarrow> datastore \<Rightarrow> datastore" where
  "put env k e ds =
     ds\<lparr>entities := AList.update k (e\<lparr>updated := now env\<rparr>) (entities ds),
        oplog := oplog ds @ [Put_key k]\<rparr>"

text \<open>
  Lines 124 to 127, then 147 and 148: the branch \<^verbatim>\<open>if key:\<close>.
  \<^verbatim>\<open>
  entry = Entry.get(key)
  entry.title = self.get_argument("title")
  entry.body = self.get_argument("markdown")
  entry.markdown = markdown.markdown(self.get_argument("markdown"))
  entry.put()
  self.redirect("/entry/" + entry.slug)
  \<close>
  \<^verbatim>\<open>Entry.get\<close> returns \<^verbatim>\<open>None\<close> for a key with no entity; the right-hand side of
  each assignment is evaluated before the attribute is set. The result is the datastore
  after the call with the exception raised or the URL of the redirect.
\<close>

definition post_update :: "env \<Rightarrow> request \<Rightarrow> dbkey \<Rightarrow> datastore \<Rightarrow> datastore \<times> (error + string)" where
  "post_update env req k ds =
     (let ds1 = ds\<lparr>oplog := oplog ds @ [Get_key k]\<rparr> in
      case title_arg req of
        None \<Rightarrow> (ds1, Inl (MissingArgument ''title''))
      | Some t \<Rightarrow>
         (case map_of (entities ds) k of
            None \<Rightarrow> (ds1, Inl AttributeError)
          | Some entry \<Rightarrow>
              if t = [] then (ds1, Inl BadValueError)
              else
               (case markdown_arg req of
                  None \<Rightarrow> (ds1, Inl (MissingArgument ''markdown''))
                | Some m \<Rightarrow>
                    if m = [] then (ds1, Inl BadValueError)
                    else if markdown_markdown env m = [] then (ds1, Inl BadValueError)
                    else
                      let entry' = entry\<lparr>title := t, body := m,
                                          markdown := markdown_markdown env m\<rparr>
                      in (put env k entry' ds1, Inr (''/entry/'' @ slug entry')))))"

text \<open>
  Lines 129 to 148: the branch \<^verbatim>\<open>else:\<close>.
  \<^verbatim>\<open>
  title = self.get_argument("title")
  ... (the slug, lines 130 to 139)
  entry = Entry(
      author=self.current_user,
      title=title,
      slug=slug,
      body=self.get_argument("markdown"),
      markdown=markdown.markdown(self.get_argument("markdown")),
  )
  entry.put()
  self.redirect("/entry/" + entry.slug)
  \<close>
  The constructor raises \<^verbatim>\<open>BadValueError\<close> when a required property is empty. The
  result is \<open>None\<close> when the collision loop never leaves.
\<close>

definition post_create :: "env \<Rightarrow> request \<Rightarrow> datastore \<Rightarrow> (datastore \<times> (error + string)) option" where
  "post_create env req ds =
     (case title_arg req of
        None \<Rightarrow> Some (ds, Inl (MissingArgument ''title''))
      | Some t \<Rightarrow>
         (case generate (normalize_nfkd env) (query_slug (entities ds)) (key_arg req) t (oplog ds) of
            None \<Rightarrow> None
          | Some (s, log) \<Rightarrow>
             (let ds1 = ds\<lparr>oplog := log\<rparr> in
              case markdown_arg req of
                None \<Rightarrow> Some (ds1, Inl (MissingArgument ''markdown''))
              | Some m \<Rightarrow>
                  if t = [] \<or> s = [] \<or> m = [] \<or> markdown_markdown env m = []
                  then Some (ds1, Inl BadValueError)
                  else
                    let entry = \<lparr>author = current_user env, title = t, slug = s, body = m,
                                 markdown = markdown_markdown env m,
                                 published = now env, updated = now env\<rparr>
                    in Some (put env (new_key env (entities ds1)) entry ds1,
                             Inr (''/entry/'' @ slug entry)))))"

text \<open>
  Lines 122 to 148, the body of \<^verbatim>\<open>ComposeHandler.post\<close>. The decorator
  \<^verbatim>\<open>administrator\<close> (lines 42 to 58) enters this body only for a user who is an
  administrator; \<open>current_user\<close> is that user.
\<close>

definition post :: "env \<Rightarrow> request \<Rightarrow> datastore \<Rightarrow> (datastore \<times> (error + string)) option" where
  "post env req ds =
     (if truthy (key_arg req) then Some (post_update env req (the (key_arg req)) ds)
      else post_create env req ds)"

text \<open>A storage operation that writes.\<close>

fun is_write :: "storage_op \<Rightarrow> bool" where
  "is_write (Put_key k) = True"
| "is_write (Get_key k) = False"
| "is_write (Query_slug s) = False"

text \<open>The number of writes that a call logged, from the datastore before to the one after.\<close>

definition writes_since :: "datastore \<Rightarrow> datastore \<Rightarrow> nat" where
  "writes_since ds ds' = length (filter is_write (drop (length (oplog ds)) (oplog ds')))"

text \<open>The characters of a slug: lower-case ASCII letters, digits, underscore, hyphen.\<close>

definition slug_char :: "char \<Rightarrow> bool" where
  "slug_char c = (let n = (of_char c :: nat) in
     (97 \<le> n \<and> n \<le> 122) \<or> (48 \<le> n \<and> n \<le> 57) \<or> n = 95 \<or> n = 45)"

text \<open>
  The property of a datastore that the \<^verbatim>\<open>markdown\<close> of every entity is the rendering
  of its \<^verbatim>\<open>body\<close>.
\<close>

definition rendered_ok :: "env \<Rightarrow> entity list \<Rightarrow> bool" where
  "rendered_ok env es = list_all (\<lambda>(k, e). markdown e = markdown_markdown env (body e)) es"

subsection \<open>Concrete inputs\<close>

definition ascii :: "string \<Rightarrow> unicode" where
  "ascii s = map of_char s"

definition env0 :: env where
  "env0 = \<lparr>normalize_nfkd = (\<lambda>u. u), markdown_markdown = (\<lambda>m. ascii ''<p>'' @ m @ ascii ''</p>''),
           current_user = ''bret'', now = 7, new_key = (\<lambda>es. ''k'' @ replicate (length es) CHR ''x'')\<rparr>"

definition hello :: Entry where
  "hello = \<lparr>author = ''bret'', title = ascii ''Hello, World!'', slug = ''hello-world'',
            body = ascii ''hi'', markdown = ascii ''<p>hi</p>'', published = 3, updated = 3\<rparr>"

definition ds0 :: datastore where
  "ds0 = \<lparr>entities = [(''k'', hello)], oplog = []\<rparr>"

definition never_taken :: "string \<Rightarrow> entity option" where
  "never_taken s = None"

definition req_create :: request where
  "req_create = \<lparr>key_arg = None, title_arg = Some (ascii ''Hello, World!''),
                 markdown_arg = Some (ascii ''again'')\<rparr>"

definition req_update :: request where
  "req_update = \<lparr>key_arg = Some ''k'', title_arg = Some (ascii ''Hello, World! Again''),
                 markdown_arg = Some (ascii ''edited'')\<rparr>"

definition req_empty_title :: request where
  "req_empty_title = \<lparr>key_arg = None, title_arg = Some [], markdown_arg = Some (ascii ''text'')\<rparr>"

definition req_missing_entry :: request where
  "req_missing_entry = \<lparr>key_arg = Some ''nokey'', title_arg = Some (ascii ''T''),
                        markdown_arg = Some (ascii ''text'')\<rparr>"

section \<open>Properties of the string functions\<close>

lemma lower_char_word: "is_word c \<Longrightarrow> slug_char (lower_char c) \<and> \<not> is_space (lower_char c)"
  by (auto simp: is_word_def slug_char_def lower_char_def is_space_def Let_def)

lemma lower_char_space: "lower_char (CHR '' '') = CHR '' ''"
  by (simp add: lower_char_def)

lemma is_space_space: "is_space (CHR '' '')"
  by (simp add: is_space_def)

lemma set_re_sub_nonword: "c \<in> set (re_sub_nonword s) \<Longrightarrow> is_word c \<or> c = CHR '' ''"
proof (induction s rule: re_sub_nonword.induct)
  case 1
  then show ?case by simp
next
  case (2 c cs)
  then show ?case by (auto split: if_splits)
qed

lemma set_strip: "c \<in> set (strip s) \<Longrightarrow> c \<in> set s"
  unfolding strip_def by (auto dest!: set_dropWhileD)

lemma set_split: "w \<in> set (split s) \<Longrightarrow> c \<in> set w \<Longrightarrow> c \<in> set s \<and> \<not> is_space c"
proof (induction s rule: split.induct)
  case 1
  then show ?case by simp
next
  case (2 c cs)
  then show ?case by (auto split: if_splits dest: set_takeWhileD set_dropWhileD)
qed

lemma set_join: "c \<in> set (join sep ws) \<Longrightarrow> c \<in> set sep \<or> (\<exists>w \<in> set ws. c \<in> set w)"
  by (induction sep ws rule: join.induct) auto

lemma normalized_chars:
  assumes "c \<in> set (normalized nfkd t)"
  shows "slug_char c"
proof -
  let ?r = "re_sub_nonword (encode_ascii_ignore (nfkd t))"
  from assms have "c \<in> set ''-'' \<or> (\<exists>w \<in> set (split (strip (lower ?r))). c \<in> set w)"
    unfolding normalized_def by (rule set_join)
  then show ?thesis
  proof
    assume "c \<in> set ''-''"
    then show ?thesis by (simp add: slug_char_def)
  next
    assume "\<exists>w \<in> set (split (strip (lower ?r))). c \<in> set w"
    then obtain w where "w \<in> set (split (strip (lower ?r)))" "c \<in> set w" by blast
    then have c: "c \<in> set (strip (lower ?r))" "\<not> is_space c"
      using set_split by blast+
    from c(1) have "c \<in> set (lower ?r)" by (rule set_strip)
    then obtain d where d: "d \<in> set ?r" "c = lower_char d"
      by (auto simp: lower_def)
    from d(1) have "is_word d \<or> d = CHR '' ''" by (rule set_re_sub_nonword)
    then show ?thesis
    proof
      assume "is_word d"
      then show ?thesis using d(2) lower_char_word by simp
    next
      assume "d = CHR '' ''"
      then have "is_space c" using d(2) by (simp add: lower_char_space is_space_space)
      with c(2) show ?thesis by simp
    qed
  qed
qed

lemma entry_chars: "list_all slug_char ''entry''"
  by (simp add: slug_char_def)

lemma slug_base_nonempty: "slug_base nfkd t \<noteq> []"
  by (simp add: slug_base_def Let_def)

lemma slug_base_chars: "list_all slug_char (slug_base nfkd t)"
proof (cases "normalized nfkd t = []")
  case True
  then show ?thesis using entry_chars by (simp add: slug_base_def)
next
  case False
  then show ?thesis using normalized_chars by (simp add: slug_base_def list_all_iff)
qed

lemma loop_never_taken:
  "collision_loop never_taken key cand log = Some (cand, log @ [Query_slug cand])"
  by (subst collision_loop.simps) (simp add: never_taken_def accepted_def)

section \<open>The slug when nothing is taken\<close>

text \<open>
  Claim C4. For every title, with a query that never finds an entity, the slug that
  lines 130 to 139 produce is the base slug of the title; it is not empty and each of
  its characters is a lower-case ASCII letter, a digit, an underscore or a hyphen.
\<close>

theorem generate_free_slug_shape:
  "generate nfkd never_taken key t log = Some (slug_base nfkd t, log @ [Query_slug (slug_base nfkd t)])
   \<and> slug_base nfkd t \<noteq> [] \<and> list_all slug_char (slug_base nfkd t)"
  by (simp add: generate_def loop_never_taken slug_base_nonempty slug_base_chars)

theorem generate_free_slug_shape_witness:
  "generate (normalize_nfkd env0) never_taken None (ascii ''Hello, World!'') [] = Some (''hello-world'', [Query_slug ''hello-world''])
   \<and> list_all slug_char ''hello-world''"
proof -
  have "slug_base (normalize_nfkd env0) (ascii ''Hello, World!'') = ''hello-world''" by code_simp
  then show ?thesis
    using generate_free_slug_shape[of "normalize_nfkd env0" None "ascii ''Hello, World!''" "[]"] by simp
qed


section \<open>The fallback slug\<close>

lemma re_sub_nonword_no_word:
  "\<forall>c \<in> set s. \<not> is_word c \<Longrightarrow> re_sub_nonword s = (if s = [] then [] else '' '')"
proof (cases s)
  case Nil
  then show ?thesis by simp
next
  case (Cons a cs)
  assume a: "\<forall>c \<in> set s. \<not> is_word c"
  then have d: "dropWhile (\<lambda>x. \<not> is_word x) cs = []"
    using Cons by (simp add: dropWhile_eq_Nil_conv)
  show ?thesis using a Cons by (simp add: d)
qed

lemma no_word_normalizes_empty:
  assumes "\<forall>c \<in> set (encode_ascii_ignore (nfkd t)). \<not> is_word c"
  shows "normalized nfkd t = []"
proof -
  have "re_sub_nonword (encode_ascii_ignore (nfkd t)) = [] \<or>
        re_sub_nonword (encode_ascii_ignore (nfkd t)) = '' ''"
    using re_sub_nonword_no_word[OF assms] by (simp split: if_splits)
  then show ?thesis
    by (auto simp: normalized_def lower_def lower_char_def strip_def is_space_def)
qed

lemma in_dropWhile: "x \<in> set xs \<Longrightarrow> \<not> P x \<Longrightarrow> x \<in> set (dropWhile P xs)"
  by (induction xs) auto

lemma word_in_re_sub_nonword: "d \<in> set s \<Longrightarrow> is_word d \<Longrightarrow> d \<in> set (re_sub_nonword s)"
proof (induction s rule: re_sub_nonword.induct)
  case 1
  then show ?case by simp
next
  case (2 c cs)
  show ?case
  proof (cases "is_word c")
    case True
    with 2 show ?thesis by auto
  next
    case False
    with 2(3,4) have "d \<in> set cs" by auto
    with 2(4) have "d \<in> set (dropWhile (\<lambda>x. \<not> is_word x) cs)" by (simp add: in_dropWhile)
    with 2(2)[OF False] 2(4) False show ?thesis by simp
  qed
qed

lemma in_strip: "x \<in> set s \<Longrightarrow> \<not> is_space x \<Longrightarrow> x \<in> set (strip s)"
  by (simp add: strip_def in_dropWhile)

lemma split_Nil_iff: "split s = [] \<longleftrightarrow> (\<forall>c \<in> set s. is_space c)"
  by (induction s rule: split.induct) auto

lemma split_words_nonempty: "w \<in> set (split s) \<Longrightarrow> w \<noteq> []"
  by (induction s rule: split.induct) (auto split: if_splits)

lemma join_Nil_iff: "\<forall>w \<in> set ws. w \<noteq> [] \<Longrightarrow> join sep ws = [] \<longleftrightarrow> ws = []"
  by (induction sep ws rule: join.induct) auto

lemma word_normalizes_nonempty:
  assumes "d \<in> set (encode_ascii_ignore (nfkd t))" and "is_word d"
  shows "normalized nfkd t \<noteq> []"
proof -
  let ?r = "re_sub_nonword (encode_ascii_ignore (nfkd t))"
  from assms have "d \<in> set ?r" by (rule word_in_re_sub_nonword)
  then have "lower_char d \<in> set (lower ?r)" by (simp add: lower_def)
  moreover have "\<not> is_space (lower_char d)" using assms(2) lower_char_word by simp
  ultimately have "lower_char d \<in> set (strip (lower ?r))" by (rule in_strip)
  with \<open>\<not> is_space (lower_char d)\<close> have "split (strip (lower ?r)) \<noteq> []"
    by (auto simp: split_Nil_iff)
  then show ?thesis
    unfolding normalized_def using join_Nil_iff[of "split (strip (lower ?r))" "''-''"] split_words_nonempty
    by blast
qed

lemma normalized_empty_iff:
  "normalized nfkd t = [] \<longleftrightarrow> (\<forall>c \<in> set (encode_ascii_ignore (nfkd t)). \<not> is_word c)"
  using no_word_normalizes_empty word_normalizes_nonempty by blast

text \<open>
  Claim C5. For every title whose normalization (lines 130 to 133: NFKD, ASCII bytes
  only, runs of non-word characters to a space, lower case, strip, split and join with
  hyphens) is the empty string, the base slug is the literal \<^verbatim>\<open>entry\<close>, and with a
  query that never finds an entity this is the slug produced. By
  \<open>normalized_empty_iff\<close> these are the titles with no ASCII word character after
  NFKD, the empty title and titles of punctuation only among them; the theorem takes
  either description of the title.
\<close>

theorem empty_normalization_falls_back:
  assumes "normalized nfkd t = [] \<or> (\<forall>c \<in> set (encode_ascii_ignore (nfkd t)). \<not> is_word c)"
  shows "slug_base nfkd t = ''entry'' \<and>
         generate nfkd never_taken key t log = Some (''entry'', log @ [Query_slug ''entry''])"
proof -
  from assms have "normalized nfkd t = []"
    using no_word_normalizes_empty by blast
  then show ?thesis
    by (simp add: slug_base_def generate_def loop_never_taken)
qed

theorem empty_normalization_falls_back_witness:
  "normalized (normalize_nfkd env0) (ascii ''!!!'') = [] \<and>
   slug_base (normalize_nfkd env0) (ascii ''!!!'') = ''entry'' \<and>
   generate (normalize_nfkd env0) never_taken None (ascii ''!!!'') [] = Some (''entry'', [Query_slug ''entry''])"
proof -
  have h: "normalized (normalize_nfkd env0) (ascii ''!!!'') = []" by code_simp
  then have "normalized (normalize_nfkd env0) (ascii ''!!!'') = [] \<or>
      (\<forall>c \<in> set (encode_ascii_ignore (normalize_nfkd env0 (ascii ''!!!''))). \<not> is_word c)" ..
  from empty_normalization_falls_back[OF this, of None "[]"] h show ?thesis by simp
qed

lemma empty_title_slug:
  "nfkd [] = [] \<Longrightarrow> slug_base nfkd [] = ''entry''"
  by (simp add: slug_base_def no_word_normalizes_empty encode_ascii_ignore_def)

section \<open>The result of the collision loop\<close>

lemma suffixed_0: "suffixed base 0 = base"
  by (simp add: suffixed_def)

lemma suffixed_Suc: "suffixed (base @ ''-2'') n = suffixed base (Suc n)"
  by (simp add: suffixed_def)

lemma probes_Suc: "Query_slug base # probes (base @ ''-2'') n = probes base (Suc n)"
  unfolding probes_def
  by (simp add: upt_conv_Cons map_Suc_upt[symmetric] suffixed_0 suffixed_Suc del: upt_Suc)

lemma loop_found:
  "accepted key (query (suffixed base n)) \<Longrightarrow>
   (\<And>m. m < n \<Longrightarrow> \<not> accepted key (query (suffixed base m))) \<Longrightarrow>
   collision_loop query key base log = Some (suffixed base n, log @ probes base (Suc n))"
proof (induction n arbitrary: base log)
  case 0
  then show ?case
    by (subst collision_loop.simps) (simp add: suffixed_0 probes_def)
next
  case (Suc n)
  have no: "\<not> accepted key (query base)"
    using Suc.prems(2)[of 0] by (simp add: suffixed_0)
  have "collision_loop query key (base @ ''-2'') (log @ [Query_slug base])
        = Some (suffixed (base @ ''-2'') n, (log @ [Query_slug base]) @ probes (base @ ''-2'') (Suc n))"
  proof (rule Suc.IH)
    show "accepted key (query (suffixed (base @ ''-2'') n))"
      using Suc.prems(1) by (simp add: suffixed_Suc)
  next
    fix m assume "m < n"
    then show "\<not> accepted key (query (suffixed (base @ ''-2'') m))"
      using Suc.prems(2)[of "Suc m"] by (simp add: suffixed_Suc)
  qed
  then show ?case
    using no by (subst collision_loop.simps) (simp add: suffixed_Suc probes_Suc)
qed

lemma loop_result:
  "collision_loop query key base log = Some r \<Longrightarrow>
   \<exists>n. accepted key (query (suffixed base n))"
proof (induction rule: collision_loop.raw_induct[rotated 1, consumes 1])
  case (1 loop query key c log r)
  show ?case
  proof (cases "accepted key (query c)")
    case True
    then have "accepted key (query (suffixed c 0))" by (simp add: suffixed_0)
    then show ?thesis ..
  next
    case False
    with 1(2) have "loop query key (c @ ''-2'') (log @ [Query_slug c]) = Some r"
      by (simp add: Let_def)
    from 1(1)[OF this] obtain n where "accepted key (query (suffixed (c @ ''-2'') n))" ..
    then have "accepted key (query (suffixed c (Suc n)))" by (simp add: suffixed_Suc)
    then show ?thesis ..
  qed
qed

lemma loop_diverges:
  "(\<And>n. \<not> accepted key (query (suffixed base n))) \<Longrightarrow> collision_loop query key base log = None"
  using loop_result[of query key base log] by (cases "collision_loop query key base log") auto

lemma loop_least:
  assumes "accepted key (query (suffixed base n))"
  shows "\<exists>m\<le>n. collision_loop query key base log = Some (suffixed base m, log @ probes base (Suc m))"
proof -
  define m where "m = (LEAST i. accepted key (query (suffixed base i)))"
  have a: "accepted key (query (suffixed base m))"
    unfolding m_def using assms by (rule LeastI)
  have b: "\<And>i. i < m \<Longrightarrow> \<not> accepted key (query (suffixed base i))"
    unfolding m_def by (rule not_less_Least)
  have "m \<le> n" unfolding m_def using assms by (rule Least_le)
  with loop_found[of key query base m log, OF a b] show ?thesis by blast
qed

lemma inj_suffixed: "inj (suffixed base)"
proof (rule injI)
  fix m n assume "suffixed base m = suffixed base n"
  then have "length (suffixed base m) = length (suffixed base n)" by simp
  then show "m = n" by (simp add: suffixed_def length_concat sum_list_replicate)
qed

lemma loop_terminates_finite:
  assumes "finite {s. query s \<noteq> None}"
  shows "\<exists>r. collision_loop query key base log = Some r"
proof -
  have "infinite (range (suffixed base))"
    using finite_imageD[of "suffixed base" UNIV] inj_suffixed[of base] infinite_UNIV_nat by blast
  then have "\<not> range (suffixed base) \<subseteq> {s. query s \<noteq> None}"
    using assms finite_subset by blast
  then obtain n where "query (suffixed base n) = None" by blast
  then have "accepted key (query (suffixed base n))" by (simp add: accepted_def)
  from loop_least[of key query base n log, OF this] show ?thesis by blast
qed


lemma suffixed_1: "suffixed base 1 = base @ ''-2''"
  by (simp add: suffixed_def)

lemma suffixed_2: "suffixed base 2 = base @ ''-2-2''"
  by (simp add: suffixed_def numeral_2_eq_2)

text \<open>
  Claim C1. The slug produced is the first candidate of the sequence base,
  base\<^verbatim>\<open>-2\<close>, base\<^verbatim>\<open>-2-2\<close>, ... at which the loop leaves: the query finds no
  entity there, or finds the entity whose key is the \<^verbatim>\<open>key\<close> argument, and at every
  earlier candidate it found another entity. One query is made for each candidate up
  to that one. With \<open>n = 1\<close> the result is the base with \<^verbatim>\<open>-2\<close> appended
  (\<open>suffixed_1\<close>), with \<open>n = 2\<close> the base with \<^verbatim>\<open>-2-2\<close> (\<open>suffixed_2\<close>).
\<close>

theorem generate_first_free_candidate:
  assumes "accepted key (query (suffixed (slug_base nfkd t) n))"
    and "\<forall>m<n. \<not> accepted key (query (suffixed (slug_base nfkd t) m))"
  shows "generate nfkd query key t log =
           Some (suffixed (slug_base nfkd t) n, log @ probes (slug_base nfkd t) (Suc n))"
  unfolding generate_def using assms by (intro loop_found) auto

theorem generate_first_free_candidate_witness:
  "generate (normalize_nfkd env0) (query_slug (entities ds0)) None (ascii ''Hello, World!'') []
     = Some (''hello-world-2'', [Query_slug ''hello-world'', Query_slug ''hello-world-2''])"
proof -
  have b: "slug_base (normalize_nfkd env0) (ascii ''Hello, World!'') = ''hello-world''"
    by code_simp
  have a: "accepted None (query_slug (entities ds0) (suffixed ''hello-world'' 1))"
    by (simp add: suffixed_def accepted_def query_slug_def ds0_def hello_def)
  have n: "\<forall>m<1. \<not> accepted None (query_slug (entities ds0) (suffixed ''hello-world'' m))"
    by (simp add: suffixed_def accepted_def query_slug_def ds0_def hello_def)
  show ?thesis
    using generate_first_free_candidate[of None "query_slug (entities ds0)" "normalize_nfkd env0"
        "ascii ''Hello, World!''" 1 "[]"] a n
    by (simp add: b suffixed_def probes_def)
qed

section \<open>Termination of the collision loop\<close>

lemma finite_taken: "finite {s. query_slug es s \<noteq> None}"
proof -
  have "{s. query_slug es s \<noteq> None} \<subseteq> (\<lambda>(k, e). slug e) ` set es"
    by (auto simp: query_slug_def find_None_iff image_iff)
  then show ?thesis by (rule finite_subset) simp
qed

lemma taken_slugs_card:
  "card {s. query_slug es s \<noteq> None} \<le> length es"
proof -
  have sub: "{s. query_slug es s \<noteq> None} \<subseteq> (\<lambda>(k, e). slug e) ` set es"
    by (auto simp: query_slug_def find_None_iff image_iff)
  have "card {s. query_slug es s \<noteq> None} \<le> card ((\<lambda>(k, e). slug e) ` set es)"
    using sub by (intro card_mono) simp_all
  also have "\<dots> \<le> card (set es)" by (rule card_image_le) simp
  also have "\<dots> \<le> length es" by (rule card_length)
  finally show ?thesis .
qed

lemma free_candidate_within_store_size:
  "\<exists>i\<le>length es. query_slug es (suffixed base i) = None"
proof (rule ccontr)
  assume "\<not> (\<exists>i\<le>length es. query_slug es (suffixed base i) = None)"
  then have sub: "suffixed base ` {..length es} \<subseteq> {s. query_slug es s \<noteq> None}"
    by auto
  have "card (suffixed base ` {..length es}) = card {..length es}"
    using inj_suffixed[of base] by (intro card_image) (auto simp: inj_on_def dest: injD)
  then have "Suc (length es) = card (suffixed base ` {..length es})" by simp
  also have "\<dots> \<le> card {s. query_slug es s \<noteq> None}"
    using sub finite_taken by (intro card_mono)
  also have "\<dots> \<le> length es" by (rule taken_slugs_card)
  finally show False by simp
qed

text \<open>
  Claim C8. The loop has no cap on its rounds, and the search ends for every title,
  every \<^verbatim>\<open>key\<close> argument and every datastore, the existence probe of line 136 being
  the query on the stored entities. Each round appends \<^verbatim>\<open>-2\<close>, so the candidates differ
  in length (\<open>inj_suffixed\<close>) and the stored entities cannot take them all: among the
  first candidates, one more than there are entities, one is free. The search ends
  there at the latest, at a slug that line 137 accepts.
\<close>

theorem generate_terminates_on_every_store:
  "\<exists>n\<le>length es.
     generate nfkd (query_slug es) key t log =
       Some (suffixed (slug_base nfkd t) n, log @ probes (slug_base nfkd t) (Suc n)) \<and>
     accepted key (query_slug es (suffixed (slug_base nfkd t) n))"
proof -
  let ?acc = "\<lambda>j. accepted key (query_slug es (suffixed (slug_base nfkd t) j))"
  obtain i where i: "i \<le> length es" "query_slug es (suffixed (slug_base nfkd t) i) = None"
    using free_candidate_within_store_size by blast
  then have "?acc i" by (simp add: accepted_def)
  define n where "n = (LEAST j. ?acc j)"
  have a: "?acc n" unfolding n_def using \<open>?acc i\<close> by (rule LeastI)
  have b: "\<And>j. j < n \<Longrightarrow> \<not> ?acc j" unfolding n_def by (rule not_less_Least)
  have "n \<le> i" unfolding n_def using \<open>?acc i\<close> by (rule Least_le)
  with i(1) have "n \<le> length es" by simp
  moreover have "generate nfkd (query_slug es) key t log =
       Some (suffixed (slug_base nfkd t) n, log @ probes (slug_base nfkd t) (Suc n))"
    unfolding generate_def
    using loop_found[of key "query_slug es" "slug_base nfkd t" n log, OF a b] .
  ultimately show ?thesis using a by blast
qed

theorem generate_terminates_on_every_store_witness:
  "\<exists>n\<le>1.
     generate (normalize_nfkd env0) (query_slug (entities ds0)) None (ascii ''Hello, World!'') [] =
       Some (suffixed ''hello-world'' n, probes ''hello-world'' (Suc n)) \<and>
     accepted None (query_slug (entities ds0) (suffixed ''hello-world'' n))"
proof -
  have b: "slug_base (normalize_nfkd env0) (ascii ''Hello, World!'') = ''hello-world''"
    by code_simp
  have l: "length (entities ds0) = 1" by (simp add: ds0_def)
  from generate_terminates_on_every_store[of "entities ds0" "normalize_nfkd env0" None
      "ascii ''Hello, World!''" "[]"]
  show ?thesis by (simp add: b l)
qed

section \<open>The loop of the create branch\<close>

lemma loop_imp_simple:
  "collision_loop query key cand log = Some r \<Longrightarrow>
   (\<And>s. accepted key (query s) = (query s = None)) \<Longrightarrow>
   simple_loop query cand log = Some r"
proof (induction rule: collision_loop.raw_induct[rotated 1, consumes 1])
  case (1 loop query key c log r)
  show ?case
  proof (cases "query c = None")
    case True
    with 1(2) 1(3)[of c] show ?thesis
      by (subst simple_loop.simps) (simp add: Let_def)
  next
    case False
    with 1(2) 1(3)[of c] have "loop query key (c @ ''-2'') (log @ [Query_slug c]) = Some r"
      by (simp add: Let_def)
    then have "simple_loop query (c @ ''-2'') (log @ [Query_slug c]) = Some r"
      using 1(3) by (rule 1(1))
    with False show ?thesis
      by (subst simple_loop.simps) (auto simp: Let_def)
  qed
qed

lemma simple_imp_loop:
  "simple_loop query cand log = Some r \<Longrightarrow>
   (\<And>s. accepted key (query s) = (query s = None)) \<Longrightarrow>
   collision_loop query key cand log = Some r"
proof (induction rule: simple_loop.raw_induct[rotated 1, consumes 1])
  case (1 loop query c log r)
  show ?case
  proof (cases "query c = None")
    case True
    with 1(2) 1(3)[of c] show ?thesis
      by (subst collision_loop.simps) (simp add: Let_def)
  next
    case False
    with 1(2) have "loop query (c @ ''-2'') (log @ [Query_slug c]) = Some r"
      by (simp add: Let_def)
    then have "collision_loop query key (c @ ''-2'') (log @ [Query_slug c]) = Some r"
      using 1(3) by (rule 1(1))
    with False 1(3)[of c] show ?thesis
      by (subst collision_loop.simps) (auto simp: Let_def)
  qed
qed

lemma falsy_key_accepted:
  assumes "key = None \<or> (key = Some [] \<and> (\<forall>s k e. query s = Some (k, e) \<longrightarrow> k \<noteq> []))"
  shows "accepted key (query s) = (query s = None)"
  using assms by (auto simp: accepted_def split: option.splits)

text \<open>
  Claim C10. In the create branch the \<^verbatim>\<open>key\<close> argument is not truthy: it is
  \<^verbatim>\<open>None\<close>, or the empty string. The key of a found entity is never equal to
  \<^verbatim>\<open>None\<close>, and not equal to the empty string when keys of entities are not empty.
  The loop of lines 135 to 139 then is the loop that leaves exactly when the query
  finds no entity: the same slug and the same queries, and neither leaves when the other
  does not.
\<close>

theorem create_loop_is_simple_loop:
  assumes "key = None \<or> (key = Some [] \<and> (\<forall>s k e. query s = Some (k, e) \<longrightarrow> k \<noteq> []))"
  shows "collision_loop query key cand log = simple_loop query cand log"
proof (cases "collision_loop query key cand log")
  case None
  show ?thesis
  proof (cases "simple_loop query cand log")
    case None
    with \<open>collision_loop query key cand log = None\<close> show ?thesis by simp
  next
    case (Some r)
    then have "collision_loop query key cand log = Some r"
      using falsy_key_accepted[OF assms] by (rule simple_imp_loop)
    with None show ?thesis by simp
  qed
next
  case (Some r)
  then have "simple_loop query cand log = Some r"
    using falsy_key_accepted[OF assms] by (rule loop_imp_simple)
  with Some show ?thesis by simp
qed

theorem create_loop_is_simple_loop_witness:
  "collision_loop (query_slug (entities ds0)) None ''hello-world'' []
     = simple_loop (query_slug (entities ds0)) ''hello-world'' [] \<and>
   simple_loop (query_slug (entities ds0)) ''hello-world'' []
     = Some (''hello-world-2'', [Query_slug ''hello-world'', Query_slug ''hello-world-2''])"
proof -
  have "simple_loop (query_slug (entities ds0)) ''hello-world'' []
     = Some (''hello-world-2'', [Query_slug ''hello-world'', Query_slug ''hello-world-2''])"
    by code_simp
  then show ?thesis
    using create_loop_is_simple_loop[of None "query_slug (entities ds0)" "''hello-world''" "[]"]
    by simp
qed


section \<open>The handler on a datastore\<close>

lemma generate_on_store:
  "\<exists>n. generate nfkd (query_slug es) key t log =
         Some (suffixed (slug_base nfkd t) n, log @ probes (slug_base nfkd t) (Suc n))"
proof -
  obtain r where "collision_loop (query_slug es) key (slug_base nfkd t) log = Some r"
    using loop_terminates_finite[OF finite_taken] by blast
  then obtain n where "accepted key (query_slug es (suffixed (slug_base nfkd t) n))"
    using loop_result by blast
  from loop_least[of key "query_slug es" "slug_base nfkd t" n log, OF this] show ?thesis
    unfolding generate_def by blast
qed

lemma probes_no_write: "\<not> list_ex is_write (probes base n)"
  by (simp add: probes_def list_ex_iff)

lemma suffixed_nonempty: "base \<noteq> [] \<Longrightarrow> suffixed base n \<noteq> []"
  by (simp add: suffixed_def)

lemma post_update_cases:
  obtains (failed) err where
      "post_update env req k ds = (ds\<lparr>oplog := oplog ds @ [Get_key k]\<rparr>, Inl err)"
      "map_of (entities ds) k = None \<longrightarrow> err = AttributeError \<or> err = MissingArgument ''title''"
  | (updated) e t m where
      "map_of (entities ds) k = Some e" "title_arg req = Some t" "markdown_arg req = Some m"
      "post_update env req k ds =
         (put env k (e\<lparr>title := t, body := m, markdown := markdown_markdown env m\<rparr>)
            (ds\<lparr>oplog := oplog ds @ [Get_key k]\<rparr>),
          Inr (''/entry/'' @ slug e))"
proof -
  let ?ds1 = "ds\<lparr>oplog := oplog ds @ [Get_key k]\<rparr>"
  have "(\<exists>err. post_update env req k ds = (?ds1, Inl err) \<and>
           (map_of (entities ds) k = None \<longrightarrow> err = AttributeError \<or> err = MissingArgument ''title''))
        \<or> (\<exists>e t m. map_of (entities ds) k = Some e \<and> title_arg req = Some t \<and>
              markdown_arg req = Some m \<and>
              post_update env req k ds =
                (put env k (e\<lparr>title := t, body := m, markdown := markdown_markdown env m\<rparr>) ?ds1,
                 Inr (''/entry/'' @ slug e)))"
    by (simp add: post_update_def Let_def split: option.splits)
  then show ?thesis
  proof (elim disjE exE conjE)
    fix err
    assume "post_update env req k ds = (?ds1, Inl err)"
      "map_of (entities ds) k = None \<longrightarrow> err = AttributeError \<or> err = MissingArgument ''title''"
    then show thesis by (rule failed)
  next
    fix e t m
    assume "map_of (entities ds) k = Some e" "title_arg req = Some t" "markdown_arg req = Some m"
      "post_update env req k ds =
         (put env k (e\<lparr>title := t, body := m, markdown := markdown_markdown env m\<rparr>) ?ds1,
          Inr (''/entry/'' @ slug e))"
    then show thesis by (rule updated)
  qed
qed

lemma post_create_cases:
  obtains (missing_title)
      "title_arg req = None"
      "post_create env req ds = Some (ds, Inl (MissingArgument ''title''))"
  | (failed) t n err where
      "title_arg req = Some t"
      "post_create env req ds =
         Some (ds\<lparr>oplog := oplog ds @ probes (slug_base (normalize_nfkd env) t) (Suc n)\<rparr>, Inl err)"
      "err = BadValueError \<or> err = MissingArgument ''markdown''"
  | (created) t n m where
      "title_arg req = Some t" "markdown_arg req = Some m" "t \<noteq> []"
      "post_create env req ds =
         Some (put env (new_key env (entities ds))
                 \<lparr>author = current_user env, title = t,
                    slug = suffixed (slug_base (normalize_nfkd env) t) n, body = m,
                    markdown = markdown_markdown env m, published = now env, updated = now env\<rparr>
                 (ds\<lparr>oplog := oplog ds @ probes (slug_base (normalize_nfkd env) t) (Suc n)\<rparr>),
               Inr (''/entry/'' @ suffixed (slug_base (normalize_nfkd env) t) n))"
proof (cases "title_arg req")
  case None
  then have "post_create env req ds = Some (ds, Inl (MissingArgument ''title''))"
    by (simp add: post_create_def)
  with None show ?thesis by (rule missing_title)
next
  case (Some t)
  obtain n where g: "generate (normalize_nfkd env) (query_slug (entities ds)) (key_arg req) t (oplog ds) =
      Some (suffixed (slug_base (normalize_nfkd env) t) n,
            oplog ds @ probes (slug_base (normalize_nfkd env) t) (Suc n))"
    using generate_on_store by blast
  show ?thesis
  proof (cases "markdown_arg req")
    case None
    with Some g have "post_create env req ds =
         Some (ds\<lparr>oplog := oplog ds @ probes (slug_base (normalize_nfkd env) t) (Suc n)\<rparr>,
               Inl (MissingArgument ''markdown''))"
      by (simp add: post_create_def)
    with Some show ?thesis by (rule failed) simp
  next
    case m: (Some m)
    show ?thesis
    proof (cases "t = [] \<or> m = [] \<or> markdown_markdown env m = []")
      case True
      with Some g m have "post_create env req ds =
         Some (ds\<lparr>oplog := oplog ds @ probes (slug_base (normalize_nfkd env) t) (Suc n)\<rparr>,
               Inl BadValueError)"
        by (auto simp: post_create_def)
      with Some show ?thesis by (rule failed) simp
    next
      case False
      with Some g m have "post_create env req ds =
         Some (put env (new_key env (entities ds))
                 \<lparr>author = current_user env, title = t,
                    slug = suffixed (slug_base (normalize_nfkd env) t) n, body = m,
                    markdown = markdown_markdown env m, published = now env, updated = now env\<rparr>
                 (ds\<lparr>oplog := oplog ds @ probes (slug_base (normalize_nfkd env) t) (Suc n)\<rparr>),
               Inr (''/entry/'' @ suffixed (slug_base (normalize_nfkd env) t) n))"
        by (simp add: post_create_def suffixed_nonempty slug_base_nonempty)
      with Some m False show ?thesis by (intro created) auto
    qed
  qed
qed

lemma post_total: "\<exists>ds' out. post env req ds = Some (ds', out)"
proof (cases "truthy (key_arg req)")
  case True
  then show ?thesis
    by (cases "post_update env req (the (key_arg req)) ds") (simp add: post_def)
next
  case False
  then have "post env req ds = post_create env req ds" by (simp add: post_def)
  then show ?thesis by (cases rule: post_create_cases[of req env ds]) auto
qed


lemma post_on_key:
  "key_arg req = Some k \<Longrightarrow> k \<noteq> [] \<Longrightarrow> post env req ds = Some (post_update env req k ds)"
  by (simp add: post_def truthy_def)

lemma post_on_no_key:
  "\<not> truthy (key_arg req) \<Longrightarrow> post env req ds = post_create env req ds"
  by (simp add: post_def)

lemma map_of_put:
  "map_of (entities (put env k e ds)) = (map_of (entities ds))(k \<mapsto> e\<lparr>updated := now env\<rparr>)"
  by (simp add: put_def update_conv')

lemma oplog_put: "oplog (put env k e ds) = oplog ds @ [Put_key k]"
  by (simp add: put_def)

lemma writes_since_reads:
  "\<not> list_ex is_write reads \<Longrightarrow> oplog ds' = oplog ds @ reads \<Longrightarrow> writes_since ds ds' = 0"
  by (simp add: writes_since_def list_ex_iff filter_empty_conv)

lemma writes_since_reads_put:
  "\<not> list_ex is_write reads \<Longrightarrow> oplog ds' = oplog ds @ reads @ [Put_key k] \<Longrightarrow>
   writes_since ds ds' = 1"
  by (simp add: writes_since_def list_ex_iff filter_empty_conv)

lemma list_all_update:
  "list_all P es \<Longrightarrow> P (k, v) \<Longrightarrow> list_all P (AList.update k v es)"
  by (induction es) auto

lemma rendered_ok_put:
  "rendered_ok env (entities ds) \<Longrightarrow> markdown e = markdown_markdown env (body e) \<Longrightarrow>
   rendered_ok env (entities (put env' k e ds))"
  by (simp add: rendered_ok_def put_def list_all_update)

section \<open>Updating an entry\<close>

text \<open>
  Claim C2. For every call with the key of a stored entity (the update branch), whatever
  title and markdown source the request has and whether the call succeeds or raises,
  the entity under that key has afterwards the \<^verbatim>\<open>slug\<close>, \<^verbatim>\<open>author\<close> and
  \<^verbatim>\<open>published\<close> it had before; its other properties (\<^verbatim>\<open>title\<close>, \<^verbatim>\<open>body\<close>,
  \<^verbatim>\<open>markdown\<close>, \<^verbatim>\<open>updated\<close>) are the ones that may differ. The entities under
  other keys are as before.
\<close>

theorem update_keeps_slug_author_published:
  assumes "key_arg req = Some k" and "k \<noteq> []" and "map_of (entities ds) k = Some e"
  shows "\<exists>ds' out e'. post env req ds = Some (ds', out) \<and>
           map_of (entities ds') k = Some e' \<and>
           slug e' = slug e \<and> author e' = author e \<and> published e' = published e \<and>
           (\<forall>k'. k' \<noteq> k \<longrightarrow> map_of (entities ds') k' = map_of (entities ds) k')"
proof (cases rule: post_update_cases[of env req k ds])
  case (failed err)
  with assms show ?thesis by (simp add: post_on_key)
next
  case (updated e0 t m)
  with assms show ?thesis by (simp add: post_on_key map_of_put)
qed

theorem update_keeps_slug_author_published_witness:
  "\<exists>ds' out e'. post env0 req_update ds0 = Some (ds', out) \<and>
     map_of (entities ds') ''k'' = Some e' \<and>
     slug e' = ''hello-world'' \<and> author e' = ''bret'' \<and> published e' = 3 \<and>
     title e' = ascii ''Hello, World! Again''"
proof -
  have p: "post env0 req_update ds0 =
      Some (\<lparr>entities = [(''k'', hello\<lparr>title := ascii ''Hello, World! Again'', body := ascii ''edited'',
                 markdown := ascii ''<p>edited</p>'', updated := 7\<rparr>)],
             oplog = [Get_key ''k'', Put_key ''k'']\<rparr>, Inr ''/entry/hello-world'')"
    by code_simp
  have "key_arg req_update = Some ''k''" "''k'' \<noteq> []" "map_of (entities ds0) ''k'' = Some hello"
    by (simp_all add: req_update_def ds0_def)
  from update_keeps_slug_author_published[OF this, of env0] show ?thesis
    by (simp add: p hello_def)
qed

section \<open>The rendered HTML\<close>

text \<open>
  Claim C3. Every call returns. After a call that succeeds (it ends with the redirect),
  in the create branch and in the update branch, the entity that the call wrote has as
  \<^verbatim>\<open>markdown\<close> the rendering of its \<^verbatim>\<open>body\<close>. As an invariant of the datastore:
  when this holds of every entity before a call, it holds of every entity after it.
\<close>

theorem post_rendered_is_rendering_of_body:
  "\<exists>ds' out. post env req ds = Some (ds', out) \<and>
     (rendered_ok env (entities ds) \<longrightarrow> rendered_ok env (entities ds')) \<and>
     (\<forall>url. out = Inr url \<longrightarrow>
        (\<exists>k e. last (oplog ds') = Put_key k \<and> map_of (entities ds') k = Some e \<and>
               markdown e = markdown_markdown env (body e)))"
proof (cases "truthy (key_arg req)")
  case True
  then obtain k where k: "key_arg req = Some k" "k \<noteq> []"
    by (auto simp: truthy_def split: option.splits)
  show ?thesis
  proof (cases rule: post_update_cases[of env req k ds])
    case (failed err)
    with k show ?thesis by (simp add: post_on_key)
  next
    case (updated e t m)
    with k show ?thesis by (simp add: post_on_key map_of_put oplog_put rendered_ok_put)
  qed
next
  case False
  show ?thesis
  proof (cases rule: post_create_cases[of req env ds])
    case missing_title
    with False show ?thesis by (simp add: post_on_no_key)
  next
    case (failed t n err)
    with False show ?thesis by (simp add: post_on_no_key)
  next
    case (created t n m)
    with False show ?thesis by (simp add: post_on_no_key map_of_put oplog_put rendered_ok_put)
  qed
qed

theorem post_rendered_is_rendering_of_body_witness:
  "\<exists>ds'. post env0 req_create ds0 = Some (ds', Inr ''/entry/hello-world-2'') \<and>
     rendered_ok env0 (entities ds0) \<and> rendered_ok env0 (entities ds') \<and>
     (\<exists>k e. last (oplog ds') = Put_key k \<and> map_of (entities ds') k = Some e \<and>
            body e = ascii ''again'' \<and> markdown e = ascii ''<p>again</p>'')"
proof -
  have p: "post env0 req_create ds0 =
      Some (\<lparr>entities = [(''k'', hello),
                 (''kx'', \<lparr>author = ''bret'', title = ascii ''Hello, World!'', slug = ''hello-world-2'',
                           body = ascii ''again'', markdown = ascii ''<p>again</p>'',
                           published = 7, updated = 7\<rparr>)],
             oplog = [Query_slug ''hello-world'', Query_slug ''hello-world-2'', Put_key ''kx'']\<rparr>,
            Inr ''/entry/hello-world-2'')"
    by code_simp
  have r: "rendered_ok env0 (entities ds0)" by code_simp
  from post_rendered_is_rendering_of_body[of env0 req_create ds0] r show ?thesis
    by (auto simp: p)
qed

section \<open>Failing calls\<close>

text \<open>
  Claim C6. A call without a truthy key (the create branch) whose title is the empty
  string fails: \<^verbatim>\<open>BadValueError\<close> from the constructor of \<^verbatim>\<open>Entry\<close>, whose
  \<^verbatim>\<open>title\<close> is \<^verbatim>\<open>required\<close>, or, when the request has no markdown argument, the
  missing-argument error for it. The entities are as before, and the call logged only
  the queries of the collision loop: no write.
\<close>

theorem create_with_empty_title_fails:
  assumes "\<not> truthy (key_arg req)" and "title_arg req = Some []"
  shows "\<exists>n err. post env req ds =
            Some (ds\<lparr>oplog := oplog ds @ probes (slug_base (normalize_nfkd env) []) (Suc n)\<rparr>, Inl err) \<and>
          (err = BadValueError \<or> err = MissingArgument ''markdown'') \<and>
          \<not> list_ex is_write (probes (slug_base (normalize_nfkd env) []) (Suc n))"
proof (cases rule: post_create_cases[of req env ds])
  case missing_title
  with assms show ?thesis by simp
next
  case (failed t n err)
  with assms show ?thesis by (auto simp: post_on_no_key probes_no_write)
next
  case (created t n m)
  with assms show ?thesis by simp
qed

theorem create_with_empty_title_fails_witness:
  "\<not> truthy (key_arg req_empty_title) \<and> title_arg req_empty_title = Some [] \<and>
   post env0 req_empty_title ds0 = Some (ds0\<lparr>oplog := [Query_slug ''entry'']\<rparr>, Inl BadValueError)"
proof -
  have h: "\<not> truthy (key_arg req_empty_title)" "title_arg req_empty_title = Some []"
    by (simp_all add: req_empty_title_def truthy_def)
  have p: "post env0 req_empty_title ds0 = Some (ds0\<lparr>oplog := [Query_slug ''entry'']\<rparr>, Inl BadValueError)"
    by code_simp
  from create_with_empty_title_fails[OF h, of env0 ds0] h p show ?thesis by simp
qed

text \<open>
  A call with a truthy key that no entity has: \<^verbatim>\<open>Entry.get\<close> returns \<^verbatim>\<open>None\<close>,
  and line 125 sets an attribute of it. The call fails without a write.
\<close>

lemma missing_entry_update_fails:
  assumes "key_arg req = Some k" and "k \<noteq> []" and "map_of (entities ds) k = None"
  shows "\<exists>err. post env req ds = Some (ds\<lparr>oplog := oplog ds @ [Get_key k]\<rparr>, Inl err) \<and>
           (err = AttributeError \<or> err = MissingArgument ''title'')"
proof (cases rule: post_update_cases[of env req k ds])
  case (failed err)
  with assms show ?thesis by (simp add: post_on_key)
next
  case (updated e t m)
  with assms show ?thesis by simp
qed

text \<open>
  Claim C7. For a call with a key that matches no stored entity the claim has a failure
  \<^verbatim>\<open>NotFound\<close> and no write. On the datastore \<open>ds0\<close>, the request with the key
  \<^verbatim>\<open>nokey\<close> logs the one read by key and no write, and what it raises is
  \<^verbatim>\<open>AttributeError\<close>: the update branch has no check of the entity for \<^verbatim>\<open>None\<close>,
  as \<^verbatim>\<open>EntryHandler.get\<close> has at line 91 (\<^verbatim>\<open>HTTPError(404)\<close>).
\<close>

theorem update_of_missing_entry_raises_AttributeError:
  "post env0 req_missing_entry ds0 = Some (ds0\<lparr>oplog := [Get_key ''nokey'']\<rparr>, Inl AttributeError)"
  by code_simp

section \<open>The storage operations of a call\<close>

text \<open>A call that fails writes nothing: here the create call with the empty title.\<close>

theorem failed_create_writes_nothing_counterexample:
  "post env0 req_empty_title ds0 = Some (ds0\<lparr>oplog := [Query_slug ''entry'']\<rparr>, Inl BadValueError)
   \<and> writes_since ds0 (ds0\<lparr>oplog := [Query_slug ''entry'']\<rparr>) = 0"
proof -
  have "post env0 req_empty_title ds0 = Some (ds0\<lparr>oplog := [Query_slug ''entry'']\<rparr>, Inl BadValueError)"
    by code_simp
  moreover have "writes_since ds0 (ds0\<lparr>oplog := [Query_slug ''entry'']\<rparr>) = 0"
    by (simp add: writes_since_def ds0_def)
  ultimately show ?thesis by simp
qed

text \<open>
  Claim C9, amended. Every call returns. A call that succeeds logs exactly one write,
  as its last storage operation; before it the update branch logs the one read by key,
  the create branch one query by slug for each round of the collision loop, up to the
  candidate that becomes the slug. A call that fails logs reads only, no write, and
  leaves the entities as they were.
\<close>

theorem post_storage_operations:
  "\<exists>ds' out. post env req ds = Some (ds', out) \<and>
     (\<forall>err. out = Inl err \<longrightarrow>
        entities ds' = entities ds \<and> writes_since ds ds' = 0 \<and>
        (\<exists>reads. oplog ds' = oplog ds @ reads \<and> \<not> list_ex is_write reads)) \<and>
     (\<forall>url. out = Inr url \<longrightarrow>
        writes_since ds ds' = 1 \<and>
        (\<exists>reads k. oplog ds' = oplog ds @ reads @ [Put_key k] \<and> \<not> list_ex is_write reads \<and>
           (if truthy (key_arg req) then reads = [Get_key (the (key_arg req))]
            else \<exists>n. reads = probes (slug_base (normalize_nfkd env) (the (title_arg req))) (Suc n) \<and>
                     url = ''/entry/'' @ suffixed (slug_base (normalize_nfkd env) (the (title_arg req))) n)))"
proof (cases "truthy (key_arg req)")
  case True
  then obtain k where k: "key_arg req = Some k" "k \<noteq> []"
    by (auto simp: truthy_def split: option.splits)
  show ?thesis
  proof (cases rule: post_update_cases[of env req k ds])
    case (failed err)
    with k show ?thesis by (simp add: post_on_key writes_since_def)
  next
    case (updated e t m)
    with k True show ?thesis by (simp add: post_on_key oplog_put writes_since_def)
  qed
next
  case False
  show ?thesis
  proof (cases rule: post_create_cases[of req env ds])
    case missing_title
    with False show ?thesis by (simp add: post_on_no_key writes_since_def)
  next
    case (failed t n err)
    with False show ?thesis
      by (simp add: post_on_no_key probes_no_write writes_since_reads[OF probes_no_write])
  next
    case (created t n m)
    have "\<exists>reads. probes (slug_base (normalize_nfkd env) t) (Suc n) = reads \<and> \<not> list_ex is_write reads \<and>
            (\<exists>n'. reads = probes (slug_base (normalize_nfkd env) t) (Suc n') \<and>
                suffixed (slug_base (normalize_nfkd env) t) n = suffixed (slug_base (normalize_nfkd env) t) n')"
      using probes_no_write by blast
    with created False show ?thesis
      by (simp add: post_on_no_key oplog_put writes_since_reads_put[OF probes_no_write])
  qed
qed

theorem post_storage_operations_witness:
  "\<exists>ds'. post env0 req_create ds0 = Some (ds', Inr ''/entry/hello-world-2'') \<and>
     oplog ds' = [Query_slug ''hello-world'', Query_slug ''hello-world-2'', Put_key ''kx''] \<and>
     writes_since ds0 ds' = 1"
proof -
  have p: "post env0 req_create ds0 =
      Some (\<lparr>entities = [(''k'', hello),
                 (''kx'', \<lparr>author = ''bret'', title = ascii ''Hello, World!'', slug = ''hello-world-2'',
                           body = ascii ''again'', markdown = ascii ''<p>again</p>'',
                           published = 7, updated = 7\<rparr>)],
             oplog = [Query_slug ''hello-world'', Query_slug ''hello-world-2'', Put_key ''kx'']\<rparr>,
            Inr ''/entry/hello-world-2'')"
    by code_simp
  from post_storage_operations[of env0 req_create ds0] show ?thesis
    by (simp add: p)
qed


end
